theory Spec2Isabelle
  imports Main "HOL-Library.AList"
begin

section \<open>Strings\<close>

text \<open>
  A Python \<^verbatim>\<open>str\<close> is modelled as a \<^typ>\<open>string\<close>; a \<^typ>\<open>char\<close> stands for
  a code point below 256. On these code points \<^verbatim>\<open>str.lower\<close> maps
  \<^verbatim>\<open>A-Z\<close> and the upper-case letters of \<^verbatim>\<open>U+00C0 .. U+00DE\<close> (all but the
  multiplication sign \<^verbatim>\<open>U+00D7\<close>) to the code point 32 above, and leaves every
  other character as it is.
\<close>

definition lower_char :: "char \<Rightarrow> char" where
  "lower_char c =
     (let n = (of_char c :: nat)
      in if (65 \<le> n \<and> n \<le> 90) \<or> (192 \<le> n \<and> n \<le> 222 \<and> n \<noteq> 215)
         then char_of (n + 32) else c)"

definition lower :: "string \<Rightarrow> string" where
  "lower s = map lower_char s"

text \<open>
  \<^verbatim>\<open>str.isspace\<close> on one character: tab, line feed, vertical tab, form feed,
  carriage return, the four separators \<^verbatim>\<open>U+001C .. U+001F\<close>, space,
  \<^verbatim>\<open>U+0085\<close> and \<^verbatim>\<open>U+00A0\<close>.
\<close>

definition isspace :: "char \<Rightarrow> bool" where
  "isspace c =
     (let n = (of_char c :: nat)
      in (9 \<le> n \<and> n \<le> 13) \<or> (28 \<le> n \<and> n \<le> 32) \<or> n = 133 \<or> n = 160)"

text \<open>\<^verbatim>\<open>str.strip()\<close>: white space removed at both ends.\<close>

definition strip :: "string \<Rightarrow> string" where
  "strip s = rev (dropWhile isspace (rev (dropWhile isspace s)))"

text \<open>\<^verbatim>\<open>sub in s\<close> on strings: \<open>sub\<close> occurs in \<open>s\<close> as a contiguous run.\<close>

fun starts_with :: "string \<Rightarrow> string \<Rightarrow> bool" where
  "starts_with [] s = True"
| "starts_with (p # ps) [] = False"
| "starts_with (p # ps) (c # cs) = (p = c \<and> starts_with ps cs)"

fun contains :: "string \<Rightarrow> string \<Rightarrow> bool" where
  "contains sub [] = (sub = [])"
| "contains sub (c # cs) = (starts_with sub (c # cs) \<or> contains sub cs)"

text \<open>\<^verbatim>\<open>sep.join(parts)\<close>.\<close>

fun join :: "string \<Rightarrow> string list \<Rightarrow> string" where
  "join sep [] = []"
| "join sep [p] = p"
| "join sep (p # q # ps) = p @ sep @ join sep (q # ps)"

text \<open>
  \<^verbatim>\<open>xs[:n]\<close> for an integer \<open>n\<close>: the first \<open>n\<close> elements when \<open>n\<close> is not
  negative, and all but the last \<open>-n\<close> elements when it is.
\<close>

definition slice_to :: "int \<Rightarrow> 'a list \<Rightarrow> 'a list" where
  "slice_to n xs =
     (if 0 \<le> n then take (nat n) xs else take (length xs - nat (- n)) xs)"

section \<open>Regular expressions\<close>

text \<open>
  The fragment of \<^verbatim>\<open>re\<close> syntax that the clause patterns use: a literal
  character, the dot (any character but a line feed), concatenation, alternation, an
  optional group \<^verbatim>\<open>r?\<close> and the bounded repetition \<^verbatim>\<open>r{0,n}\<close>.
\<close>

datatype regex =
    Lit char
  | Dot
  | Seq regex regex
  | Alt regex regex
  | Opt regex
  | Upto nat regex

text \<open>
  Under the flag \<^verbatim>\<open>(?i)\<close> a literal matches a character when the two agree after
  lower-casing.
\<close>

definition lit_matches :: "bool \<Rightarrow> char \<Rightarrow> char \<Rightarrow> bool" where
  "lit_matches ignorecase p c =
     (if ignorecase then lower_char p = lower_char c else p = c)"

text \<open>
  \<open>rests ic r s\<close> lists what is left of \<open>s\<close> after each way of matching \<open>r\<close> at
  the start of \<open>s\<close>; \<open>repeat_upto step n s\<close> does so for at most \<open>n\<close> rounds of
  \<open>step\<close>, the longest first.
\<close>

fun repeat_upto :: "(string \<Rightarrow> string list) \<Rightarrow> nat \<Rightarrow> string \<Rightarrow> string list" where
  "repeat_upto step 0 s = [s]"
| "repeat_upto step (Suc n) s = concat (map (repeat_upto step n) (step s)) @ [s]"

fun rests :: "bool \<Rightarrow> regex \<Rightarrow> string \<Rightarrow> string list" where
  "rests ic (Lit p) [] = []"
| "rests ic (Lit p) (c # cs) = (if lit_matches ic p c then [cs] else [])"
| "rests ic Dot [] = []"
| "rests ic Dot (c # cs) = (if c \<noteq> CHR 0x0A then [cs] else [])"
| "rests ic (Seq a b) s = concat (map (rests ic b) (rests ic a s))"
| "rests ic (Alt a b) s = rests ic a s @ rests ic b s"
| "rests ic (Opt a) s = rests ic a s @ [s]"
| "rests ic (Upto n a) s = repeat_upto (rests ic a) n s"

definition match_at :: "bool \<Rightarrow> regex \<Rightarrow> string \<Rightarrow> bool" where
  "match_at ic r s = (rests ic r s \<noteq> [])"

text \<open>\<^verbatim>\<open>re.search(pattern, s)\<close> as a truth value: a match starts somewhere in \<open>s\<close>.\<close>

fun re_search_from :: "bool \<Rightarrow> regex \<Rightarrow> string \<Rightarrow> bool" where
  "re_search_from ic r [] = match_at ic r []"
| "re_search_from ic r (c # cs) = (match_at ic r (c # cs) \<or> re_search_from ic r cs)"

text \<open>A compiled pattern: its flag \<^verbatim>\<open>(?i)\<close> and its body.\<close>

record pattern =
  ignorecase :: bool
  body :: regex

definition re_search :: "pattern \<Rightarrow> string \<Rightarrow> bool" where
  "re_search p s = re_search_from (ignorecase p) (body p) s"

fun word :: "string \<Rightarrow> regex \<Rightarrow> regex" where
  "word [] r = r"
| "word (c # cs) r = Seq (Lit c) (word cs r)"

definition lits :: "string \<Rightarrow> regex" where
  "lits s = (case rev s of [] \<Rightarrow> Upto 0 Dot | c # cs \<Rightarrow> word (rev cs) (Lit c))"

section \<open>The linguistic annotator\<close>

text \<open>
  \<^verbatim>\<open>nlp = spacy.load("en_core_web_sm")\<close> is not code of the repository: it is a
  parameter \<open>nlp\<close> of every operation. What the code reads from the annotated
  document is kept: the tokens (\<^verbatim>\<open>len(doc)\<close>), the sentences with their text and
  noun chunks, the noun chunks of the document, and the entities with text and label.
\<close>

record sentence =
  sent_text :: string
  sent_noun_chunks :: "string list"

record entity =
  ent_text :: string
  ent_label :: string

record annotated_doc =
  doc_tokens :: "string list"
  doc_sents :: "sentence list"
  doc_noun_chunks :: "string list"
  doc_ents :: "entity list"

datatype error =
    AnnotatorFailure string
  | KeyError string
  | BrokenProcessPool

type_synonym annotator = "string \<Rightarrow> error + annotated_doc"

section \<open>The processor\<close>

record tfidf_vectorizer =
  stop_words :: string
  ngram_range :: "nat \<times> nat"
  max_features :: nat

record processor =
  legal_terms :: "string list"
  tfidf :: tfidf_vectorizer

definition init :: processor where
  "init =
     \<lparr> legal_terms =
         [''liability'', ''indemnification'', ''termination'', ''warranty'',
          ''confidentiality'', ''arbitration'', ''jurisdiction'', ''force majeure''],
       tfidf = \<lparr> stop_words = ''english'', ngram_range = (1, 3), max_features = 1000 \<rparr> \<rparr>"

section \<open>Clause extraction\<close>

text \<open>
  A Python \<^verbatim>\<open>dict\<close> keeps its keys in insertion order: it is an association list
  with distinct keys. \<^verbatim>\<open>d[k].append(v)\<close> raises \<^verbatim>\<open>KeyError\<close> for a key that is
  not there.
\<close>

type_synonym 'v dict = "(string \<times> 'v) list"

definition dict_append :: "string list dict \<Rightarrow> string \<Rightarrow> string \<Rightarrow> error + string list dict" where
  "dict_append d k v =
     (case map_of d k of
        None \<Rightarrow> Inl (KeyError k)
      | Some l \<Rightarrow> Inr (AList.update k (l @ [v]) d))"

definition termination_re :: regex where
  "termination_re =
     Seq (Alt (word ''terminat'' (Alt (Lit CHR ''e'') (lits ''ion'')))
              (word ''cancel'' (Opt (lits ''lation''))))
         (Upto 200 Dot)"

definition liability_re :: regex where
  "liability_re =
     Seq (Alt (word ''liab'' (Alt (lits ''le'') (lits ''ility'')))
              (word ''indemnif'' (Alt (Lit CHR ''y'') (lits ''ication''))))
         (Upto 200 Dot)"

definition confidentiality_re :: regex where
  "confidentiality_re =
     Seq (Alt (word ''confidential'' (Opt (lits ''ity'')))
              (lits ''non-disclosure''))
         (Upto 200 Dot)"

definition patterns :: "pattern dict" where
  "patterns =
     [(''termination'', \<lparr> ignorecase = True, body = termination_re \<rparr>),
      (''liability'', \<lparr> ignorecase = True, body = liability_re \<rparr>),
      (''confidentiality'', \<lparr> ignorecase = True, body = confidentiality_re \<rparr>)]"

text \<open>The inner loop \<^verbatim>\<open>for sentence in sentences\<close> of one clause type.\<close>

fun scan_sentences ::
  "string \<Rightarrow> pattern \<Rightarrow> string list \<Rightarrow> string list dict \<Rightarrow> error + string list dict" where
  "scan_sentences clause_type pat [] clauses = Inr clauses"
| "scan_sentences clause_type pat (s # ss) clauses =
     (if re_search pat s
      then (case dict_append clauses clause_type s of
              Inl e \<Rightarrow> Inl e
            | Inr clauses' \<Rightarrow> scan_sentences clause_type pat ss clauses')
      else scan_sentences clause_type pat ss clauses)"

text \<open>The outer loop \<^verbatim>\<open>for clause_type, pattern in patterns.items()\<close>.\<close>

fun scan_patterns ::
  "pattern dict \<Rightarrow> string list \<Rightarrow> string list dict \<Rightarrow> error + string list dict" where
  "scan_patterns [] sentences clauses = Inr clauses"
| "scan_patterns ((clause_type, pat) # ps) sentences clauses =
     (case scan_sentences clause_type pat sentences clauses of
        Inl e \<Rightarrow> Inl e
      | Inr clauses' \<Rightarrow> scan_patterns ps sentences clauses')"

definition extract_clauses ::
  "annotator \<Rightarrow> processor \<Rightarrow> string \<Rightarrow> error + string list dict" where
  "extract_clauses nlp self document =
     (let clauses = [(''termination'', []), (''liability'', []), (''confidentiality'', [])]
      in case nlp document of
           Inl e \<Rightarrow> Inl e
         | Inr doc \<Rightarrow>
             (let sentences = map (\<lambda>sent. strip (sent_text sent)) (doc_sents doc)
              in scan_patterns patterns sentences clauses))"

section \<open>Term frequency\<close>

text \<open>
  \<^verbatim>\<open>any(legal_term in text for legal_term in self.legal_terms)\<close>. The vocabulary is a
  Python set; \<^verbatim>\<open>any\<close> does not depend on the order in which it is read.
\<close>

definition any_legal_term :: "processor \<Rightarrow> string \<Rightarrow> bool" where
  "any_legal_term self text = list_ex (\<lambda>legal_term. contains legal_term text) (legal_terms self)"

text \<open>The loop \<^verbatim>\<open>for chunk in doc.noun_chunks\<close> of \<^verbatim>\<open>_process_single_doc\<close>.\<close>

fun collect_terms :: "processor \<Rightarrow> string list \<Rightarrow> string list \<Rightarrow> string list" where
  "collect_terms self [] terms = terms"
| "collect_terms self (chunk # chunks) terms =
     (if any_legal_term self (lower chunk)
      then collect_terms self chunks (terms @ [lower chunk])
      else collect_terms self chunks terms)"

definition process_single_doc :: "annotator \<Rightarrow> processor \<Rightarrow> string \<Rightarrow> error + string list" where
  "process_single_doc nlp self document =
     (case nlp document of
        Inl e \<Rightarrow> Inl e
      | Inr doc \<Rightarrow> Inr (collect_terms self (doc_noun_chunks doc) []))"

text \<open>
  \<^verbatim>\<open>ProcessPoolExecutor.map\<close>: one task per element, submitted in the order of the
  input. The workers finish in any order: \<open>finish i\<close> is the time at which the task
  of element \<open>i\<close> completes, and each completion stores its outcome in the future of
  its own element. \<^verbatim>\<open>list(executor.map(...))\<close> then reads the futures in the order
  of submission and raises the first exception it meets there.
\<close>

definition complete :: "('a \<Rightarrow> 'r) \<Rightarrow> 'a list \<Rightarrow> nat \<Rightarrow> 'r option list \<Rightarrow> 'r option list" where
  "complete f xs i futures = futures[i := Some (f (xs ! i))]"

fun gather :: "(error + 'b) option list \<Rightarrow> error + 'b list" where
  "gather [] = Inr []"
| "gather (None # futures) = Inl BrokenProcessPool"
| "gather (Some (Inl e) # futures) = Inl e"
| "gather (Some (Inr r) # futures) =
     (case gather futures of Inl e \<Rightarrow> Inl e | Inr rs \<Rightarrow> Inr (r # rs))"

definition executor_map ::
  "(nat \<Rightarrow> nat) \<Rightarrow> ('a \<Rightarrow> error + 'b) \<Rightarrow> 'a list \<Rightarrow> error + 'b list" where
  "executor_map finish f xs =
     (let completion = sort_key finish [0..<length xs];
          futures = fold (complete f xs) completion (replicate (length xs) None)
      in gather futures)"

text \<open>The loop \<^verbatim>\<open>for doc_terms in processed_docs: all_terms.extend(doc_terms)\<close>.\<close>

fun extend_all :: "string list list \<Rightarrow> string list \<Rightarrow> string list" where
  "extend_all [] all_terms = all_terms"
| "extend_all (doc_terms # processed_docs) all_terms =
     extend_all processed_docs (all_terms @ doc_terms)"

text \<open>
  \<^verbatim>\<open>Counter(iterable)\<close> runs \<^verbatim>\<open>self[elem] = self.get(elem, 0) + 1\<close> on each
  element: a new key goes to the end of the dictionary and a known key keeps its place.
\<close>

definition count_elem :: "int dict \<Rightarrow> string \<Rightarrow> int dict" where
  "count_elem d elem =
     AList.update elem ((case map_of d elem of None \<Rightarrow> 0 | Some c \<Rightarrow> c) + 1) d"

fun count_all :: "string list \<Rightarrow> int dict \<Rightarrow> int dict" where
  "count_all [] d = d"
| "count_all (elem # elems) d = count_all elems (count_elem d elem)"

definition Counter :: "string list \<Rightarrow> int dict" where
  "Counter elems = count_all elems []"

text \<open>
  \<^verbatim>\<open>sorted(xs, key=key, reverse=reverse)\<close>: a stable sort; with \<^verbatim>\<open>reverse\<close> the
  list is reversed before and after, so that equal keys keep the order of \<open>xs\<close>.
\<close>

definition sorted_by :: "('a \<Rightarrow> int) \<Rightarrow> bool \<Rightarrow> 'a list \<Rightarrow> 'a list" where
  "sorted_by key reverse xs =
     (if reverse then rev (sort_key key (rev xs)) else sort_key key xs)"

definition analyze_term_frequency ::
  "annotator \<Rightarrow> (nat \<Rightarrow> nat) \<Rightarrow> processor \<Rightarrow> string list \<Rightarrow> int \<Rightarrow> error + (string \<times> int) list" where
  "analyze_term_frequency nlp finish self documents top_n =
     (case executor_map finish (process_single_doc nlp self) documents of
        Inl e \<Rightarrow> Inl e
      | Inr processed_docs \<Rightarrow>
          (let all_terms = extend_all processed_docs [];
               term_freq = Counter all_terms;
               legal_term_freq =
                 filter (\<lambda>(term, freq). any_legal_term self (lower term)) term_freq
           in Inr (slice_to top_n (sorted_by snd True legal_term_freq))))"

text \<open>The same operation without the filter of the aggregation stage.\<close>

definition analyze_term_frequency_one_filter ::
  "annotator \<Rightarrow> (nat \<Rightarrow> nat) \<Rightarrow> processor \<Rightarrow> string list \<Rightarrow> int \<Rightarrow> error + (string \<times> int) list" where
  "analyze_term_frequency_one_filter nlp finish self documents top_n =
     (case executor_map finish (process_single_doc nlp self) documents of
        Inl e \<Rightarrow> Inl e
      | Inr processed_docs \<Rightarrow>
          (let all_terms = extend_all processed_docs [];
               term_freq = Counter all_terms
           in Inr (slice_to top_n (sorted_by snd True term_freq))))"

section \<open>Document insights\<close>

text \<open>The loop \<^verbatim>\<open>for sent in doc.sents\<close> of \<^verbatim>\<open>_generate_summary\<close>.\<close>

fun important_loop :: "sentence list \<Rightarrow> string list \<Rightarrow> string list" where
  "important_loop [] important_sentences = important_sentences"
| "important_loop (sent # sents) important_sentences =
     (if length (sent_noun_chunks sent) > 3
      then important_loop sents (important_sentences @ [sent_text sent])
      else important_loop sents important_sentences)"

definition generate_summary :: "annotated_doc \<Rightarrow> string" where
  "generate_summary doc =
     (let important_sentences = important_loop (doc_sents doc) []
      in join '' '' (slice_to 3 important_sentences))"

text \<open>The loop \<^verbatim>\<open>for ent in doc.ents\<close> of \<^verbatim>\<open>_extract_entities\<close>.\<close>

fun entities_loop :: "entity list \<Rightarrow> string list dict \<Rightarrow> error + string list dict" where
  "entities_loop [] entities = Inr entities"
| "entities_loop (ent # ents) entities =
     (let entities' =
            (if map_of entities (ent_label ent) = None
             then AList.update (ent_label ent) [] entities else entities)
      in case dict_append entities' (ent_label ent) (ent_text ent) of
           Inl e \<Rightarrow> Inl e
         | Inr entities'' \<Rightarrow> entities_loop ents entities'')"

definition extract_entities :: "annotated_doc \<Rightarrow> error + string list dict" where
  "extract_entities doc = entities_loop (doc_ents doc) []"

record document_stats =
  total_words :: nat
  sentences :: nat
  entities :: "string list dict"

record insights =
  summary :: string
  key_clauses :: "string list dict"
  document_stats :: document_stats

definition get_document_insights :: "annotator \<Rightarrow> processor \<Rightarrow> string \<Rightarrow> error + insights" where
  "get_document_insights nlp self document =
     (case nlp document of
        Inl e \<Rightarrow> Inl e
      | Inr doc \<Rightarrow>
          (let s = generate_summary doc
           in case extract_clauses nlp self document of
                Inl e \<Rightarrow> Inl e
              | Inr clauses \<Rightarrow>
                  (case extract_entities doc of
                     Inl e \<Rightarrow> Inl e
                   | Inr ents \<Rightarrow>
                       Inr \<lparr> summary = s,
                             key_clauses = clauses,
                             document_stats =
                               \<lparr> total_words = length (doc_tokens doc),
                                 sentences = length (doc_sents doc),
                                 entities = ents \<rparr> \<rparr>)))"

text \<open>The summary as the specification words it.\<close>

definition summary_spec :: "annotated_doc \<Rightarrow> string" where
  "summary_spec doc =
     join '' ''
       (take 3 (map sent_text
          (filter (\<lambda>sent. 3 < length (sent_noun_chunks sent)) (doc_sents doc))))"

section \<open>Views of the data for the statements\<close>

text \<open>
  The terms one annotated document contributes: its noun chunks, lower-cased, that
  contain an entry of the vocabulary.
\<close>

definition chunk_terms :: "processor \<Rightarrow> annotated_doc \<Rightarrow> string list" where
  "chunk_terms self doc =
     filter (any_legal_term self) (map lower (doc_noun_chunks doc))"

text \<open>The elements of a list in the order of their first occurrence.\<close>

fun first_seen :: "'a list \<Rightarrow> 'a list" where
  "first_seen [] = []"
| "first_seen (x # xs) = x # first_seen (filter (\<lambda>y. y \<noteq> x) xs)"

section \<open>An example document\<close>

text \<open>
  A deterministic annotator for one document, in the shape of the sample of the
  source's main block: it knows \<open>example_document\<close> and fails on every other text.
  The first sentence span starts with white space, as a span after a line break does.
\<close>

definition example_document :: string where
  "example_document =
     ''This Agreement may be terminated by either party upon 30 days written notice. The Company shall not be liable for any indirect damages. All confidential information shall be kept strictly confidential for a period of 5 years. Liability under the Confidentiality clause survives termination of this Agreement by the Company. Termination does not limit liability.''"

definition example_sent1 :: sentence where
  "example_sent1 =
     \<lparr> sent_text = '' This Agreement may be terminated by either party upon 30 days written notice.'',
       sent_noun_chunks = [''This Agreement'', ''either party'', ''30 days'', ''written notice''] \<rparr>"

definition example_sent2 :: sentence where
  "example_sent2 =
     \<lparr> sent_text = ''The Company shall not be liable for any indirect damages.'',
       sent_noun_chunks = [''The Company'', ''any indirect damages''] \<rparr>"

definition example_sent3 :: sentence where
  "example_sent3 =
     \<lparr> sent_text = ''All confidential information shall be kept strictly confidential for a period of 5 years.'',
       sent_noun_chunks = [''All confidential information'', ''a period'', ''5 years''] \<rparr>"

definition example_sent4 :: sentence where
  "example_sent4 =
     \<lparr> sent_text = ''Liability under the Confidentiality clause survives termination of this Agreement by the Company.'',
       sent_noun_chunks = [''Liability'', ''the Confidentiality clause'', ''termination'', ''this Agreement'', ''the Company''] \<rparr>"

definition example_sent5 :: sentence where
  "example_sent5 =
     \<lparr> sent_text = ''Termination does not limit liability.'',
       sent_noun_chunks = [''Termination'', ''liability''] \<rparr>"

definition example_annotation :: annotated_doc where
  "example_annotation =
     \<lparr> doc_tokens =
         [''This'', ''Agreement'', ''may'', ''be'', ''terminated'', ''by'', ''either'',
          ''party'', ''upon'', ''30'', ''days'', ''written'', ''notice'', ''.'',
          ''The'', ''Company'', ''shall'', ''not'', ''be'', ''liable'', ''for'',
          ''any'', ''indirect'', ''damages'', ''.'', ''All'', ''confidential'',
          ''information'', ''shall'', ''be'', ''kept'', ''strictly'', ''confidential'',
          ''for'', ''a'', ''period'', ''of'', ''5'', ''years'', ''.'', ''Liability'',
          ''under'', ''the'', ''Confidentiality'', ''clause'', ''survives'',
          ''termination'', ''of'', ''this'', ''Agreement'', ''by'', ''the'',
          ''Company'', ''.'', ''Termination'', ''does'', ''not'', ''limit'',
          ''liability'', ''.''],
       doc_sents = [example_sent1, example_sent2, example_sent3, example_sent4, example_sent5],
       doc_noun_chunks = concat (map sent_noun_chunks [example_sent1, example_sent2, example_sent3, example_sent4, example_sent5]),
       doc_ents =
         [\<lparr> ent_text = ''30 days'', ent_label = ''DATE'' \<rparr>,
          \<lparr> ent_text = ''Company'', ent_label = ''ORG'' \<rparr>,
          \<lparr> ent_text = ''5 years'', ent_label = ''DATE'' \<rparr>,
          \<lparr> ent_text = ''Company'', ent_label = ''ORG'' \<rparr>] \<rparr>"

definition example_nlp :: annotator where
  "example_nlp text =
     (if text = example_document then Inr example_annotation
      else Inl (AnnotatorFailure ''unsupported text''))"

text \<open>Two completion orders of the workers: first to last, and last to first.\<close>

definition in_order :: "nat \<Rightarrow> nat" where
  "in_order i = i"

definition last_first :: "nat \<Rightarrow> nat" where
  "last_first i = 100 - i"

section \<open>Clause extraction: results\<close>

text \<open>The sentence strings that \<^verbatim>\<open>extract_clauses\<close> tests: the stripped sentence texts.\<close>

definition stripped_sentences :: "annotated_doc \<Rightarrow> string list" where
  "stripped_sentences doc = map (\<lambda>sent. strip (sent_text sent)) (doc_sents doc)"

lemma scan_sentences_result:
  "map_of clauses ct = Some l \<Longrightarrow>
   scan_sentences ct pat ss clauses =
     Inr (AList.update ct (l @ filter (re_search pat) ss) clauses)"
proof (induction ss arbitrary: clauses l)
  case Nil
  then show ?case by (simp add: AList.update_triv)
next
  case (Cons s ss)
  show ?case
  proof (cases "re_search pat s")
    case True
    have m: "map_of (AList.update ct (l @ [s]) clauses) ct = Some (l @ [s])"
      by (simp add: AList.update_conv')
    show ?thesis
      using True Cons.prems Cons.IH [OF m]
      by (simp add: dict_append_def)
  next
    case False
    then show ?thesis using Cons.IH [OF Cons.prems] by simp
  qed
qed

lemma extract_clauses_result:
  assumes "nlp document = Inr doc"
  shows "extract_clauses nlp self document =
     Inr (map (\<lambda>(clause_type, pat).
                (clause_type, filter (re_search pat) (stripped_sentences doc))) patterns)"
  using assms
  by (simp add: extract_clauses_def patterns_def scan_sentences_result
      stripped_sentences_def Let_def)

lemma extract_clauses_failure:
  "nlp document = Inl e \<Longrightarrow> extract_clauses nlp self document = Inl e"
  by (simp add: extract_clauses_def)

lemma example_nlp_ok: "example_nlp example_document = Inr example_annotation"
  by (simp add: example_nlp_def)

text \<open>
  C1. Whenever the annotator returns an annotation of the document, also of the empty
  document, \<^verbatim>\<open>extract_clauses\<close> returns a dictionary whose keys are exactly
  \<^verbatim>\<open>termination\<close>, \<^verbatim>\<open>liability\<close> and \<^verbatim>\<open>confidentiality\<close>, each once, and each
  key holds a list of stripped sentence texts of the document, no longer than the list
  of its sentences (so empty when the annotation has no sentence).
\<close>

theorem extract_clauses_keys:
  assumes "nlp document = Inr doc"
  shows "\<exists>clauses. extract_clauses nlp self document = Inr clauses
           \<and> distinct (map fst clauses)
           \<and> set (map fst clauses) = {''termination'', ''liability'', ''confidentiality''}
           \<and> list_all (\<lambda>(clause_type, l).
                 set l \<subseteq> set (stripped_sentences doc)
                 \<and> length l \<le> length (doc_sents doc)) clauses"
proof -
  have len: "length (filter P (stripped_sentences doc)) \<le> length (doc_sents doc)" for P
    using length_filter_le [of P "stripped_sentences doc"]
    by (simp add: stripped_sentences_def)
  show ?thesis
    using assms extract_clauses_result [of nlp document doc self]
    by (simp add: patterns_def len)
qed

theorem extract_clauses_keys_witness:
  "example_nlp example_document = Inr example_annotation
   \<and> (\<exists>clauses. extract_clauses example_nlp init example_document = Inr clauses
           \<and> distinct (map fst clauses)
           \<and> set (map fst clauses) = {''termination'', ''liability'', ''confidentiality''}
           \<and> list_all (\<lambda>(clause_type, l).
                 set l \<subseteq> set (stripped_sentences example_annotation)
                 \<and> length l \<le> length (doc_sents example_annotation)) clauses)"
  using extract_clauses_keys [of example_nlp example_document example_annotation init]
    example_nlp_ok
  by blast

text \<open>
  C2. Each category is decided on its own: the list of a category is the list of the
  document's stripped sentences that its pattern finds a match in, in document order
  and with repetitions kept, whatever the other categories match. A sentence that two
  patterns match is therefore in both lists, and one that none matches is in none.
\<close>

theorem extract_clauses_independent:
  assumes "nlp document = Inr doc"
  shows "extract_clauses nlp self document =
     Inr (map (\<lambda>(clause_type, pat).
                (clause_type, filter (re_search pat) (stripped_sentences doc))) patterns)"
  using assms by (rule extract_clauses_result)

theorem extract_clauses_independent_witness:
  "example_nlp example_document = Inr example_annotation
   \<and> extract_clauses example_nlp init example_document =
     Inr (map (\<lambda>(clause_type, pat).
                (clause_type, filter (re_search pat) (stripped_sentences example_annotation)))
           patterns)"
  using extract_clauses_independent [of example_nlp example_document example_annotation init]
    example_nlp_ok
  by blast

section \<open>Term frequency: the worker pool and the counter\<close>

lemma complete_fold_length:
  "length (fold (complete f xs) is futures) = length futures"
  by (induction "is" arbitrary: futures) (simp_all add: complete_def)

lemma complete_fold_nth:
  "j < length futures \<Longrightarrow>
   fold (complete f xs) is futures ! j =
     (if j \<in> set is then Some (f (xs ! j)) else futures ! j)"
proof (induction "is" arbitrary: futures)
  case Nil
  then show ?case by simp
next
  case (Cons i "is")
  have "j < length (complete f xs i futures)"
    using Cons.prems by (simp add: complete_def)
  from Cons.IH [OF this] Cons.prems show ?case
    by (simp add: complete_def nth_list_update)
qed

lemma executor_map_futures:
  "fold (complete f xs) (sort_key finish [0..<length xs]) (replicate (length xs) None)
     = map (\<lambda>x. Some (f x)) xs"
  by (rule nth_equalityI) (simp_all add: complete_fold_length complete_fold_nth)

lemma executor_map_in_order:
  "executor_map finish f xs = gather (map (\<lambda>x. Some (f x)) xs)"
  by (simp add: executor_map_def executor_map_futures)

lemma collect_terms_eq:
  "collect_terms self chunks terms =
     terms @ filter (any_legal_term self) (map lower chunks)"
  by (induction chunks arbitrary: terms) simp_all

lemma process_single_doc_ok:
  "nlp document = Inr doc \<Longrightarrow> process_single_doc nlp self document = Inr (chunk_terms self doc)"
  by (simp add: process_single_doc_def collect_terms_eq chunk_terms_def)

lemma process_single_doc_fail:
  "nlp document = Inl e \<Longrightarrow> process_single_doc nlp self document = Inl e"
  by (simp add: process_single_doc_def)

lemma extend_all_eq: "extend_all processed_docs all_terms = all_terms @ concat processed_docs"
  by (induction processed_docs arbitrary: all_terms) simp_all

lemma count_elem_keys:
  "map fst (count_elem d x) = (if x \<in> set (map fst d) then map fst d else map fst d @ [x])"
  by (simp add: count_elem_def AList.update_keys)

lemma gather_all_ok:
  "map f xs = map Inr rs \<Longrightarrow> gather (map (\<lambda>x. Some (f x)) xs) = Inr rs"
proof (induction xs arbitrary: rs)
  case Nil
  then show ?case by simp
next
  case (Cons x xs)
  from Cons.prems obtain r rs' where rs: "rs = r # rs'" "f x = Inr r" "map f xs = map Inr rs'"
    by (cases rs) simp_all
  with Cons.IH [OF rs(3)] show ?case by simp
qed

lemma gather_ok_conv:
  "gather (map (\<lambda>x. Some (f x)) xs) = Inr rs \<Longrightarrow> map f xs = map Inr rs"
proof (induction xs arbitrary: rs)
  case Nil
  then show ?case by simp
next
  case (Cons x xs)
  show ?case
  proof (cases "f x")
    case (Inl e)
    with Cons.prems show ?thesis by simp
  next
    case (Inr r)
    show ?thesis
    proof (cases "gather (map (\<lambda>x. Some (f x)) xs)")
      case (Inl e)
      with Inr Cons.prems show ?thesis by simp
    next
      case inr: (Inr rs')
      with Inr Cons.prems have "rs = r # rs'" by simp
      with Inr Cons.IH [OF inr] show ?thesis by simp
    qed
  qed
qed

lemma count_all_keys:
  "map fst (count_all xs d) =
     map fst d @ first_seen (filter (\<lambda>k. k \<notin> set (map fst d)) xs)"
proof (induction xs arbitrary: d)
  case Nil
  then show ?case by simp
next
  case (Cons x xs)
  show ?case
  proof (cases "x \<in> set (map fst d)")
    case True
    then show ?thesis by (simp add: Cons.IH count_elem_keys)
  next
    case False
    have "filter (\<lambda>k. k \<notin> set (map fst d @ [x])) xs
            = filter (\<lambda>y. y \<noteq> x) (filter (\<lambda>k. k \<notin> set (map fst d)) xs)"
      by (induction xs) auto
    with False show ?thesis by (simp add: Cons.IH count_elem_keys)
  qed
qed

lemma count_elem_lookup:
  "map_of (count_elem d x) k =
     (if k = x then Some ((case map_of d x of None \<Rightarrow> 0 | Some c \<Rightarrow> c) + 1) else map_of d k)"
  by (simp add: count_elem_def AList.update_conv')

lemma count_all_lookup:
  "map_of (count_all xs d) k =
     (case map_of d k of
        None \<Rightarrow> (if k \<in> set xs then Some (int (count_list xs k)) else None)
      | Some c \<Rightarrow> Some (c + int (count_list xs k)))"
proof (induction xs arbitrary: d k)
  case Nil
  then show ?case by (simp split: option.split)
next
  case (Cons x xs)
  show ?case
  proof (cases "k = x")
    case True
    then show ?thesis
      by (simp add: Cons.IH count_elem_lookup split: option.split)
  next
    case False
    then show ?thesis
      by (simp add: Cons.IH count_elem_lookup split: option.split)
  qed
qed

lemma Counter_lookup:
  "map_of (Counter xs) k = (if k \<in> set xs then Some (int (count_list xs k)) else None)"
  by (simp add: Counter_def count_all_lookup)

section \<open>Strings, sorting and slicing: facts\<close>

lemma lower_char_idem: "lower_char (lower_char c) = lower_char c"
proof -
  have r: "(of_char c :: nat) < 256" by simp
  show ?thesis
    unfolding lower_char_def Let_def
    using r by (auto simp: char_of_def[symmetric])
qed

lemma lower_idem: "lower (lower s) = lower s"
  by (simp add: lower_def lower_char_idem)

lemma starts_with_iff: "starts_with p s \<longleftrightarrow> (\<exists>post. s = p @ post)"
  by (induction p s rule: starts_with.induct) auto

lemma contains_iff: "contains sub s \<longleftrightarrow> (\<exists>pre post. s = pre @ sub @ post)"
proof (induction s)
  case Nil
  then show ?case by simp
next
  case (Cons c cs)
  show ?case
  proof
    assume "contains sub (c # cs)"
    then consider "starts_with sub (c # cs)" | "contains sub cs" by auto
    then show "\<exists>pre post. c # cs = pre @ sub @ post"
    proof cases
      case 1
      then obtain post where "c # cs = sub @ post" by (auto simp: starts_with_iff)
      then have "c # cs = [] @ sub @ post" by simp
      then show ?thesis by blast
    next
      case 2
      with Cons.IH obtain pre post where "cs = pre @ sub @ post" by blast
      then have "c # cs = (c # pre) @ sub @ post" by simp
      then show ?thesis by blast
    qed
  next
    assume "\<exists>pre post. c # cs = pre @ sub @ post"
    then obtain pre post where e: "c # cs = pre @ sub @ post" by blast
    show "contains sub (c # cs)"
    proof (cases pre)
      case Nil
      with e have "starts_with sub (c # cs)" by (auto simp: starts_with_iff)
      then show ?thesis by simp
    next
      case (Cons p pre')
      with e have "cs = pre' @ sub @ post" by simp
      with Cons.IH have "contains sub cs" by blast
      then show ?thesis by simp
    qed
  qed
qed

lemma set_first_seen: "set (first_seen xs) = set xs"
  by (induction xs rule: first_seen.induct) auto

lemma distinct_first_seen: "distinct (first_seen xs)"
  by (induction xs rule: first_seen.induct) (auto simp: set_first_seen)


lemma set_sorted_by: "set (sorted_by key r xs) = set xs"
  by (simp add: sorted_by_def)


lemma slice_to_take: "\<exists>m. slice_to n xs = take m xs"
  by (auto simp: slice_to_def)




lemma set_slice_to: "set (slice_to n xs) \<subseteq> set xs"
  by (auto simp: slice_to_def dest: in_set_takeD)

section \<open>Term frequency: the ranking\<close>

lemma process_all_ok:
  "map nlp documents = map Inr docs \<Longrightarrow>
   map (process_single_doc nlp self) documents = map Inr (map (chunk_terms self) docs)"
proof (induction documents arbitrary: docs)
  case Nil
  then show ?case by simp
next
  case (Cons d ds)
  from Cons.prems obtain doc docs' where
    "docs = doc # docs'" "nlp d = Inr doc" "map nlp ds = map Inr docs'"
    by (cases docs) simp_all
  with Cons.IH [of docs'] show ?case by (simp add: process_single_doc_ok)
qed

lemma executor_map_ok:
  assumes "map nlp documents = map Inr docs"
  shows "executor_map finish (process_single_doc nlp self) documents
           = Inr (map (chunk_terms self) docs)"
  unfolding executor_map_in_order
  by (rule gather_all_ok) (rule process_all_ok [OF assms])

lemma Counter_keys: "map fst (Counter xs) = first_seen xs"
  by (simp add: Counter_def count_all_keys)

lemma Counter_key_in: "(t, c) \<in> set (Counter xs) \<Longrightarrow> t \<in> set xs"
proof -
  assume "(t, c) \<in> set (Counter xs)"
  then have "t \<in> set (map fst (Counter xs))" by force
  then show ?thesis by (simp add: Counter_keys set_first_seen)
qed

lemma Counter_distinct: "distinct (map fst (Counter xs))"
  by (simp add: Counter_keys distinct_first_seen)

lemma Counter_count: "(t, c) \<in> set (Counter xs) \<Longrightarrow> c = int (count_list xs t)"
proof -
  assume a: "(t, c) \<in> set (Counter xs)"
  then have "map_of (Counter xs) t = Some c" using Counter_distinct by simp
  with Counter_key_in [OF a] show ?thesis by (simp add: Counter_lookup)
qed

lemma Counter_eq:
  "Counter xs = map (\<lambda>t. (t, int (count_list xs t))) (first_seen xs)"
proof -
  have "Counter xs = map (\<lambda>p. (fst p, snd p)) (Counter xs)" by simp
  also have "\<dots> = map (\<lambda>p. (fst p, int (count_list xs (fst p)))) (Counter xs)"
    by (rule map_cong) (auto dest: Counter_count [of _ _ xs] simp: prod_eq_iff)
  also have "\<dots> = map (\<lambda>t. (t, int (count_list xs t))) (map fst (Counter xs))"
    by (simp add: comp_def)
  finally show ?thesis by (simp add: Counter_keys)
qed

lemma chunk_terms_legal:
  "t \<in> set (concat (map (chunk_terms self) docs)) \<Longrightarrow> any_legal_term self (lower t)"
  by (auto simp: chunk_terms_def lower_idem)

lemma aggregation_filter_noop:
  assumes "\<And>t. t \<in> set xs \<Longrightarrow> any_legal_term self (lower t)"
  shows "filter (\<lambda>(term, freq). any_legal_term self (lower term)) (Counter xs) = Counter xs"
proof -
  have "\<forall>p \<in> set (Counter xs). (\<lambda>(term, freq). any_legal_term self (lower term)) p"
    using assms by (auto dest: Counter_key_in)
  then show ?thesis by (rule iffD2 [OF filter_id_conv])
qed

lemma analyze_term_frequency_ok:
  assumes "map nlp documents = map Inr docs"
  shows "analyze_term_frequency nlp finish self documents top_n =
     Inr (slice_to top_n (sorted_by snd True
            (Counter (concat (map (chunk_terms self) docs)))))"
proof -
  have "filter (\<lambda>(term, freq). any_legal_term self (lower term))
          (Counter (concat (map (chunk_terms self) docs)))
        = Counter (concat (map (chunk_terms self) docs))"
    by (rule aggregation_filter_noop) (rule chunk_terms_legal)
  then show ?thesis
    by (simp add: analyze_term_frequency_def executor_map_ok [OF assms] extend_all_eq)
qed


lemma example_ranking_two:
  "analyze_term_frequency example_nlp last_first init [example_document, example_document] 2
     = Inr [(''liability'', 4), (''termination'', 4)]"
  by code_simp

lemma example_nlp_all_ok:
  "map example_nlp [example_document, example_document]
     = map Inr [example_annotation, example_annotation]"
  by (simp add: example_nlp_def)







text \<open>
  C4. Every pair \<open>(term, count)\<close> of a ranking that \<^verbatim>\<open>analyze_term_frequency\<close>
  returns has a term whose lower-cased text contains an entry of the vocabulary as a
  contiguous run of characters, and a count that is strictly positive.
\<close>

theorem analyze_term_frequency_pairs:
  assumes "analyze_term_frequency nlp finish self documents top_n = Inr ranked"
    and "(term, count) \<in> set ranked"
  shows "(\<exists>legal_term \<in> set (legal_terms self).
            \<exists>pre post. lower term = pre @ legal_term @ post)
         \<and> 0 < count"
proof -
  from assms(1) obtain processed_docs where
    ranked: "ranked = slice_to top_n (sorted_by snd True
               (filter (\<lambda>(term, freq). any_legal_term self (lower term))
                  (Counter (extend_all processed_docs []))))"
    by (auto simp: analyze_term_frequency_def Let_def split: sum.splits)
  define counted where "counted = Counter (extend_all processed_docs [])"
  define kept where
    "kept = filter (\<lambda>(term, freq). any_legal_term self (lower term)) counted"
  have "set ranked \<subseteq> set (sorted_by snd True kept)"
    unfolding ranked kept_def counted_def by (rule set_slice_to)
  with assms(2) have "(term, count) \<in> set kept"
    by (auto simp: set_sorted_by)
  then have legal: "any_legal_term self (lower term)"
    and mem: "(term, count) \<in> set (Counter (extend_all processed_docs []))"
    by (simp_all add: kept_def counted_def)
  from mem have "term \<in> set (extend_all processed_docs [])" by (rule Counter_key_in)
  then have "0 < count_list (extend_all processed_docs []) term"
    using count_list_0_iff [of "extend_all processed_docs []" "term"] by simp
  with Counter_count [OF mem] have "0 < count" by simp
  moreover from legal have "\<exists>legal_term \<in> set (legal_terms self).
            \<exists>pre post. lower term = pre @ legal_term @ post"
    by (simp add: any_legal_term_def list_ex_iff contains_iff)
  ultimately show ?thesis by simp
qed

text \<open>The theorem at the pair of \<^verbatim>\<open>termination\<close> in a ranking of the example.\<close>

theorem analyze_term_frequency_pairs_witness:
  "analyze_term_frequency example_nlp last_first init [example_document, example_document] 2
     = Inr [(''liability'', 4), (''termination'', 4)]
   \<and> (''termination'', 4) \<in> set [(''liability'', 4 :: int), (''termination'', 4)]
   \<and> (\<exists>legal_term \<in> set (legal_terms init).
         \<exists>pre post. lower ''termination'' = pre @ legal_term @ post)
   \<and> (0 :: int) < 4"
  using analyze_term_frequency_pairs [OF example_ranking_two, of "''termination''" 4]
    example_ranking_two
  by simp

lemma analyze_term_frequency_failure:
  "executor_map finish (process_single_doc nlp self) documents = Inl e \<Longrightarrow>
   analyze_term_frequency nlp finish self documents top_n = Inl e"
  by (simp add: analyze_term_frequency_def)

lemma processed_terms_legal:
  assumes "gather (map (\<lambda>d. Some (process_single_doc nlp self d)) documents) = Inr processed_docs"
    and "t \<in> set (concat processed_docs)"
  shows "any_legal_term self (lower t)"
proof -
  from assms(1) have m: "map (process_single_doc nlp self) documents = map Inr processed_docs"
    by (rule gather_ok_conv)
  from assms(2) obtain ts where ts: "ts \<in> set processed_docs" "t \<in> set ts" by auto
  then have "Inr ts \<in> set (map (process_single_doc nlp self) documents)"
    unfolding m by simp
  then obtain d where pd: "process_single_doc nlp self d = Inr ts" by auto
  show ?thesis
  proof (cases "nlp d")
    case (Inl e)
    with pd show ?thesis by (simp add: process_single_doc_def)
  next
    case (Inr doc)
    with pd have "ts = collect_terms self (doc_noun_chunks doc) []"
      by (simp add: process_single_doc_def)
    with ts(2) show ?thesis by (auto simp: collect_terms_eq lower_idem)
  qed
qed

text \<open>
  C8. The filter of the aggregation stage changes nothing: every term that the
  per-document extraction emits is lower-cased already and contains an entry of the
  vocabulary, so the operation without that filter returns the same result, ranking or
  error, for every annotator, completion order, corpus and \<^verbatim>\<open>top_n\<close>.
\<close>

theorem aggregation_filter_redundant:
  "analyze_term_frequency_one_filter nlp finish self documents top_n
     = analyze_term_frequency nlp finish self documents top_n"
proof (cases "executor_map finish (process_single_doc nlp self) documents")
  case (Inl e)
  then show ?thesis
    by (simp add: analyze_term_frequency_def analyze_term_frequency_one_filter_def)
next
  case (Inr processed_docs)
  then have g: "gather (map (\<lambda>d. Some (process_single_doc nlp self d)) documents)
                  = Inr processed_docs"
    by (simp add: executor_map_in_order)
  have "filter (\<lambda>(term, freq). any_legal_term self (lower term))
          (Counter (extend_all processed_docs []))
        = Counter (extend_all processed_docs [])"
    by (rule aggregation_filter_noop) (simp add: extend_all_eq processed_terms_legal [OF g])
  with Inr show ?thesis
    by (simp add: analyze_term_frequency_def analyze_term_frequency_one_filter_def)
qed

lemma filter_sorted_by_key:
  "filter (\<lambda>y. key y = k) (sorted_by key r xs) = filter (\<lambda>y. key y = k) xs"
proof (cases r)
  case True
  have "filter (\<lambda>y. key y = k) (rev (sort_key key (rev xs)))
          = rev (filter (\<lambda>y. key y = k) (sort_key key (rev xs)))"
    by (simp add: rev_filter)
  also have "\<dots> = rev (filter (\<lambda>y. key y = k) (rev xs))"
    by (simp only: sort_key_stable)
  also have "\<dots> = filter (\<lambda>y. key y = k) xs"
    by (simp add: rev_filter)
  finally show ?thesis using True by (simp add: sorted_by_def)
next
  case False
  then show ?thesis by (simp add: sorted_by_def sort_key_stable)
qed

lemma filter_slice_to_prefix:
  "\<exists>rest. filter P xs = filter P (slice_to n xs) @ rest"
proof -
  obtain m where m: "slice_to n xs = take m xs" using slice_to_take by blast
  have "filter P xs = filter P (take m xs @ drop m xs)" by simp
  also have "\<dots> = filter P (take m xs) @ filter P (drop m xs)" by (rule filter_append)
  finally show ?thesis unfolding m by blast
qed

text \<open>
  C10. For a fixed annotator the result of \<^verbatim>\<open>analyze_term_frequency\<close>, ranking or
  error, is the same for every order in which the workers complete, since the outcomes
  are read in the order of the documents. When every document is annotated, the
  entries of any one count \<open>c\<close> stand in the ranking in the order in which their
  terms first appear in the terms of the documents taken in document order: they are
  an initial part of the list of all terms of count \<open>c\<close> in that order.
\<close>

theorem analyze_term_frequency_deterministic:
  "analyze_term_frequency nlp finish self documents top_n
     = analyze_term_frequency nlp finish' self documents top_n
   \<and> (map nlp documents = map Inr docs \<longrightarrow>
        (\<exists>ranked rest.
            analyze_term_frequency nlp finish self documents top_n = Inr ranked
          \<and> filter (\<lambda>p. snd p = c)
               (map (\<lambda>t. (t, int (count_list (concat (map (chunk_terms self) docs)) t)))
                  (first_seen (concat (map (chunk_terms self) docs))))
             = filter (\<lambda>p. snd p = c) ranked @ rest))"
proof
  show "analyze_term_frequency nlp finish self documents top_n
     = analyze_term_frequency nlp finish' self documents top_n"
    by (simp add: analyze_term_frequency_def executor_map_in_order)
next
  show "map nlp documents = map Inr docs \<longrightarrow>
        (\<exists>ranked rest.
            analyze_term_frequency nlp finish self documents top_n = Inr ranked
          \<and> filter (\<lambda>p. snd p = c)
               (map (\<lambda>t. (t, int (count_list (concat (map (chunk_terms self) docs)) t)))
                  (first_seen (concat (map (chunk_terms self) docs))))
             = filter (\<lambda>p. snd p = c) ranked @ rest)"
  proof
    assume ok: "map nlp documents = map Inr docs"
    define all_terms where "all_terms = concat (map (chunk_terms self) docs)"
    define full where "full = sorted_by snd True (Counter all_terms)"
    have r: "analyze_term_frequency nlp finish self documents top_n = Inr (slice_to top_n full)"
      unfolding full_def all_terms_def by (rule analyze_term_frequency_ok [OF ok])
    obtain rest where
      "filter (\<lambda>p. snd p = c) full = filter (\<lambda>p. snd p = c) (slice_to top_n full) @ rest"
      using filter_slice_to_prefix by blast
    then have "filter (\<lambda>p. snd p = c) (Counter all_terms)
                 = filter (\<lambda>p. snd p = c) (slice_to top_n full) @ rest"
      by (simp add: full_def filter_sorted_by_key)
    with r show "\<exists>ranked rest.
            analyze_term_frequency nlp finish self documents top_n = Inr ranked
          \<and> filter (\<lambda>p. snd p = c)
               (map (\<lambda>t. (t, int (count_list (concat (map (chunk_terms self) docs)) t)))
                  (first_seen (concat (map (chunk_terms self) docs))))
             = filter (\<lambda>p. snd p = c) ranked @ rest"
      unfolding all_terms_def Counter_eq by blast
  qed
qed

text \<open>The theorem at two copies of the example and the two completion orders.\<close>

theorem analyze_term_frequency_deterministic_witness:
  "analyze_term_frequency example_nlp in_order init [example_document, example_document] 2
     = analyze_term_frequency example_nlp last_first init [example_document, example_document] 2
   \<and> map example_nlp [example_document, example_document]
       = map Inr [example_annotation, example_annotation]
   \<and> (\<exists>ranked rest.
          analyze_term_frequency example_nlp in_order init
            [example_document, example_document] 2 = Inr ranked
        \<and> filter (\<lambda>p. snd p = 4)
             (map (\<lambda>t. (t, int (count_list (concat (map (chunk_terms init)
                      [example_annotation, example_annotation])) t)))
                (first_seen (concat (map (chunk_terms init)
                      [example_annotation, example_annotation]))))
           = filter (\<lambda>p. snd p = 4) ranked @ rest)"
  using analyze_term_frequency_deterministic [of example_nlp in_order init
      "[example_document, example_document]" 2 last_first
      "[example_annotation, example_annotation]" 4]
    example_nlp_all_ok
  by blast

section \<open>Term frequency: a repeated document\<close>

lemma first_seen_append:
  "first_seen (xs @ ys) = first_seen xs @ first_seen (filter (\<lambda>y. y \<notin> set xs) ys)"
proof (induction xs arbitrary: ys rule: first_seen.induct)
  case 1
  then show ?case by simp
next
  case (2 x xs)
  have "filter (\<lambda>y. y \<notin> set (filter (\<lambda>y. y \<noteq> x) xs)) (filter (\<lambda>y. y \<noteq> x) ys)
          = filter (\<lambda>y. y \<notin> set (x # xs)) ys"
    by (induction ys) auto
  then show ?case
    using "2.IH" [of "filter (\<lambda>y. y \<noteq> x) ys"] by simp
qed

lemma first_seen_absorb:
  "set ys \<subseteq> set xs \<Longrightarrow> first_seen (xs @ ys) = first_seen xs"
proof -
  assume "set ys \<subseteq> set xs"
  then have "filter (\<lambda>y. y \<notin> set xs) ys = []" by (auto simp: filter_empty_conv)
  then show ?thesis by (simp add: first_seen_append)
qed

lemma first_seen_repeat:
  "first_seen (concat (replicate (Suc k) xs)) = first_seen xs"
proof -
  have "set (concat (replicate k xs)) \<subseteq> set xs" by auto
  then show ?thesis by (simp add: first_seen_absorb)
qed

lemma count_list_repeat:
  "count_list (concat (replicate k xs)) t = k * count_list xs t"
  by (induction k) simp_all

lemma Counter_repeat:
  assumes "0 < k"
  shows "Counter (concat (replicate k xs)) = map (\<lambda>(t, c). (t, int k * c)) (Counter xs)"
proof -
  from assms obtain j where k: "k = Suc j" by (cases k) simp_all
  show ?thesis
    unfolding Counter_eq k first_seen_repeat
    by (simp add: count_list_repeat [of "Suc j"] comp_def algebra_simps del: replicate_Suc)
qed

lemma insort_key_map:
  "insort_key f (g x) (map g ys) = map g (insort_key (\<lambda>y. f (g y)) x ys)"
  by (induction ys) simp_all

lemma sort_key_map:
  "sort_key f (map g xs) = map g (sort_key (\<lambda>y. f (g y)) xs)"
  by (induction xs) (simp_all add: insort_key_map)

lemma insort_key_same_order:
  assumes "\<And>x y. f x \<le> f y \<longleftrightarrow> g x \<le> g y"
  shows "insort_key f x ys = insort_key g x ys"
  by (induction ys) (simp_all add: assms)

lemma sort_key_same_order:
  assumes "\<And>x y. f x \<le> f y \<longleftrightarrow> g x \<le> g y"
  shows "sort_key f xs = sort_key g xs"
proof (induction xs)
  case Nil
  then show ?case by simp
next
  case (Cons x xs)
  then show ?case using insort_key_same_order [of f g, OF assms] by simp
qed

lemma sorted_by_scaled:
  assumes "0 < k"
  shows "sorted_by snd r (map (\<lambda>(t, c). (t, int k * c)) (xs :: (string \<times> int) list))
           = map (\<lambda>(t, c). (t, int k * c)) (sorted_by snd r xs)"
proof -
  have o: "\<And>x y :: string \<times> int.
      snd (case x of (t, c) \<Rightarrow> (t, int k * c)) \<le> snd (case y of (t, c) \<Rightarrow> (t, int k * c))
        \<longleftrightarrow> snd x \<le> snd y"
    using assms by (auto simp: split_def)
  have s: "sort_key snd (map (\<lambda>(t, c). (t, int k * c)) ys)
             = map (\<lambda>(t, c). (t, int k * c)) (sort_key snd ys)" for ys :: "(string \<times> int) list"
    unfolding sort_key_map by (simp only: sort_key_same_order [OF o])
  show ?thesis
    by (simp add: sorted_by_def rev_map s)
qed

lemma slice_to_map: "slice_to n (map g xs) = map g (slice_to n xs)"
  by (simp add: slice_to_def take_map)

text \<open>
  C5. For a document that the annotator annotates and \<open>k > 0\<close>, the ranking of the
  corpus of \<open>k\<close> copies of the document, for the same \<^verbatim>\<open>top_n\<close>, is the ranking
  of the single document with every count multiplied by \<open>k\<close>: the same terms in the
  same order.
\<close>

theorem repeated_document_counts:
  assumes "nlp d = Inr doc" and "0 < k"
  shows "\<exists>single.
      analyze_term_frequency nlp finish self [d] top_n = Inr single
    \<and> analyze_term_frequency nlp finish' self (replicate k d) top_n
        = Inr (map (\<lambda>(term, count). (term, int k * count)) single)"
proof -
  define ts where "ts = chunk_terms self doc"
  define single where "single = slice_to top_n (sorted_by snd True (Counter ts))"
  have one: "map nlp [d] = map Inr [doc]" using assms(1) by simp
  have many: "map nlp (replicate k d) = map Inr (replicate k doc)"
    using assms(1) by simp
  have s: "analyze_term_frequency nlp finish self [d] top_n = Inr single"
    using analyze_term_frequency_ok [OF one, of finish self top_n]
    by (simp add: single_def ts_def)
  have "analyze_term_frequency nlp finish' self (replicate k d) top_n
          = Inr (slice_to top_n (sorted_by snd True (Counter (concat (replicate k ts)))))"
    using analyze_term_frequency_ok [OF many, of finish' self top_n]
    by (simp add: ts_def)
  also have "\<dots> = Inr (map (\<lambda>(term, count). (term, int k * count)) single)"
    by (simp add: Counter_repeat [OF assms(2)] sorted_by_scaled [OF assms(2)]
        slice_to_map single_def)
  finally show ?thesis using s by blast
qed

text \<open>The theorem at three copies of the example document.\<close>

theorem repeated_document_counts_witness:
  "example_nlp example_document = Inr example_annotation \<and> (0 :: nat) < 3
   \<and> (\<exists>single.
        analyze_term_frequency example_nlp in_order init [example_document] 10 = Inr single
      \<and> analyze_term_frequency example_nlp last_first init (replicate 3 example_document) 10
          = Inr (map (\<lambda>(term, count). (term, int 3 * count)) single))"
  using repeated_document_counts [of example_nlp example_document example_annotation 3
      in_order init 10 last_first]
    example_nlp_ok
  by simp

section \<open>Document insights: results\<close>

lemma important_loop_eq:
  "important_loop sents important_sentences =
     important_sentences
       @ map sent_text (filter (\<lambda>sent. 3 < length (sent_noun_chunks sent)) sents)"
  by (induction sents arbitrary: important_sentences) simp_all

lemma generate_summary_eq: "generate_summary doc = summary_spec doc"
  by (simp add: generate_summary_def summary_spec_def important_loop_eq slice_to_def)

lemma join_upto_three:
  "join sep (take 3 xs) =
     (case xs of
        [] \<Rightarrow> []
      | [a] \<Rightarrow> a
      | [a, b] \<Rightarrow> a @ sep @ b
      | a # b # c # rest \<Rightarrow> a @ sep @ b @ sep @ c)"
  by (simp add: numeral_3_eq_3 split: list.split)

lemma entities_loop_ok:
  "\<exists>result. entities_loop ents seen = Inr result
     \<and> map fst result
         = map fst seen
           @ first_seen (filter (\<lambda>l. l \<notin> set (map fst seen)) (map ent_label ents))
     \<and> (\<forall>l. map_of result l =
           (case map_of seen l of
              None \<Rightarrow> (if l \<in> set (map ent_label ents)
                        then Some (map ent_text (filter (\<lambda>e. ent_label e = l) ents))
                        else None)
            | Some v \<Rightarrow> Some (v @ map ent_text (filter (\<lambda>e. ent_label e = l) ents))))"
proof (induction ents arbitrary: seen)
  case Nil
  then show ?case by (simp split: option.split)
next
  case (Cons ent ents)
  define seen' where next_def:
    "seen' = AList.update (ent_label ent)
            ((case map_of seen (ent_label ent) of None \<Rightarrow> [] | Some l \<Rightarrow> l)
               @ [ent_text ent]) seen"
  have step: "entities_loop (ent # ents) seen = entities_loop ents seen'"
    by (cases "map_of seen (ent_label ent)")
       (simp_all add: next_def dict_append_def AList.update_conv')
  from Cons.IH [of seen'] obtain result where
    r: "entities_loop ents seen' = Inr result"
    and k: "map fst result = map fst seen'
           @ first_seen (filter (\<lambda>l. l \<notin> set (map fst seen')) (map ent_label ents))"
    and m: "\<And>l. map_of result l =
           (case map_of seen' l of
              None \<Rightarrow> (if l \<in> set (map ent_label ents)
                        then Some (map ent_text (filter (\<lambda>e. ent_label e = l) ents))
                        else None)
            | Some v \<Rightarrow> Some (v @ map ent_text (filter (\<lambda>e. ent_label e = l) ents)))"
    by blast
  have keys: "map fst result = map fst seen
           @ first_seen (filter (\<lambda>l. l \<notin> set (map fst seen)) (map ent_label (ent # ents)))"
  proof (cases "ent_label ent \<in> set (map fst seen)")
    case True
    then show ?thesis by (simp add: k next_def AList.update_keys)
  next
    case False
    have "filter (\<lambda>l. l \<notin> set (map fst seen @ [ent_label ent])) ls
            = filter (\<lambda>y. y \<noteq> ent_label ent) (filter (\<lambda>l. l \<notin> set (map fst seen)) ls)"
      for ls by (induction ls) auto
    with False show ?thesis by (simp add: k next_def AList.update_keys)
  qed
  have lookup: "map_of result l =
           (case map_of seen l of
              None \<Rightarrow> (if l \<in> set (map ent_label (ent # ents))
                        then Some (map ent_text (filter (\<lambda>e. ent_label e = l) (ent # ents)))
                        else None)
            | Some v \<Rightarrow> Some (v @ map ent_text (filter (\<lambda>e. ent_label e = l) (ent # ents))))"
    for l
  proof (cases "l = ent_label ent")
    case True
    then show ?thesis
      by (simp add: m next_def AList.update_conv' split: option.split)
  next
    case False
    then have "ent_label ent \<noteq> l" by blast
    with False show ?thesis
      by (simp add: m next_def AList.update_conv' split: option.split)
  qed
  from r keys lookup show ?case unfolding step by blast
qed

lemma alist_by_keys:
  assumes "distinct (map fst al)"
    and "\<And>k. k \<in> set (map fst al) \<Longrightarrow> map_of al k = Some (f k)"
  shows "al = map (\<lambda>k. (k, f k)) (map fst al)"
proof -
  have "snd p = f (fst p)" if "p \<in> set al" for p
  proof -
    from that have "map_of al (fst p) = Some (snd p)" using assms(1) by simp
    moreover from that have "fst p \<in> set (map fst al)" by simp
    ultimately show ?thesis using assms(2) by fastforce
  qed
  then have "map (\<lambda>p. (fst p, snd p)) al = map (\<lambda>p. (fst p, f (fst p))) al"
    by (intro map_cong) simp_all
  then show ?thesis by (simp add: comp_def)
qed

lemma extract_entities_eq:
  "extract_entities doc =
     Inr (map (\<lambda>l. (l, map ent_text (filter (\<lambda>e. ent_label e = l) (doc_ents doc))))
            (first_seen (map ent_label (doc_ents doc))))"
proof -
  from entities_loop_ok [of "doc_ents doc" "[]"] obtain result where
    r: "entities_loop (doc_ents doc) [] = Inr result"
    and k: "map fst result = first_seen (map ent_label (doc_ents doc))"
    and m: "\<And>l. map_of result l =
              (if l \<in> set (map ent_label (doc_ents doc))
               then Some (map ent_text (filter (\<lambda>e. ent_label e = l) (doc_ents doc)))
               else None)"
    by auto
  have d: "distinct (map fst result)" unfolding k by (rule distinct_first_seen)
  have "result = map (\<lambda>l. (l, map ent_text (filter (\<lambda>e. ent_label e = l) (doc_ents doc))))
                   (map fst result)"
  proof (rule alist_by_keys [OF d])
    fix l assume "l \<in> set (map fst result)"
    then have "l \<in> set (map ent_label (doc_ents doc))"
      unfolding k by (simp only: set_first_seen)
    then show "map_of result l
                 = Some (map ent_text (filter (\<lambda>e. ent_label e = l) (doc_ents doc)))"
      by (simp only: m if_True)
  qed
  then show ?thesis unfolding extract_entities_def r k by simp
qed

lemma get_document_insights_ok:
  assumes "nlp document = Inr doc"
  shows "get_document_insights nlp self document =
     Inr \<lparr> summary = summary_spec doc,
           key_clauses =
             map (\<lambda>(clause_type, pat).
                    (clause_type, filter (re_search pat) (stripped_sentences doc))) patterns,
           document_stats =
             \<lparr> total_words = length (doc_tokens doc),
               sentences = length (doc_sents doc),
               entities =
                 map (\<lambda>l. (l, map ent_text (filter (\<lambda>e. ent_label e = l) (doc_ents doc))))
                   (first_seen (map ent_label (doc_ents doc))) \<rparr> \<rparr>"
  using assms
  by (simp add: get_document_insights_def generate_summary_eq extract_entities_eq
      extract_clauses_result [of nlp document doc self])

lemma get_document_insights_failure:
  "nlp document = Inl e \<Longrightarrow> get_document_insights nlp self document = Inl e"
  by (simp add: get_document_insights_def)

text \<open>
  C6. Whenever the annotator returns an annotation of the document, the summary of
  \<^verbatim>\<open>get_document_insights\<close> is what the specification words: of the sentences
  with more than three noun chunks, in document order, the texts of the first three,
  with one space between two of them; so the empty string when no sentence qualifies,
  the text of the one and the texts of the two when one and two do.
\<close>

theorem summary_first_three:
  assumes "nlp document = Inr doc"
  shows "\<exists>ins. get_document_insights nlp self document = Inr ins
     \<and> summary ins = summary_spec doc
     \<and> summary ins =
         (case map sent_text
                 (filter (\<lambda>sent. 3 < length (sent_noun_chunks sent)) (doc_sents doc)) of
            [] \<Rightarrow> []
          | [a] \<Rightarrow> a
          | [a, b] \<Rightarrow> a @ '' '' @ b
          | a # b # c # rest \<Rightarrow> a @ '' '' @ b @ '' '' @ c)"
  unfolding get_document_insights_ok [of nlp document doc self, OF assms]
  by (simp add: summary_spec_def join_upto_three)

text \<open>The theorem at the example document.\<close>

theorem summary_first_three_witness:
  "example_nlp example_document = Inr example_annotation
   \<and> (\<exists>ins. get_document_insights example_nlp init example_document = Inr ins
     \<and> summary ins = summary_spec example_annotation
     \<and> summary ins =
         (case map sent_text
                 (filter (\<lambda>sent. 3 < length (sent_noun_chunks sent))
                    (doc_sents example_annotation)) of
            [] \<Rightarrow> []
          | [a] \<Rightarrow> a
          | [a, b] \<Rightarrow> a @ '' '' @ b
          | a # b # c # rest \<Rightarrow> a @ '' '' @ b @ '' '' @ c))"
  using summary_first_three [of example_nlp example_document example_annotation init]
    example_nlp_ok
  by blast

text \<open>
  C7. Whenever the annotator returns an annotation of the document, the statistics of
  \<^verbatim>\<open>get_document_insights\<close> hold the number of its sentence spans, the number of
  its tokens, and the entity dictionary: the labels in the order in which they are
  first seen, each with the texts of the entities of that label in document order.
\<close>

theorem document_stats_counts:
  assumes "nlp document = Inr doc"
  shows "\<exists>ins. get_document_insights nlp self document = Inr ins
     \<and> sentences (document_stats ins) = length (doc_sents doc)
     \<and> total_words (document_stats ins) = length (doc_tokens doc)
     \<and> entities (document_stats ins) =
         map (\<lambda>l. (l, map ent_text (filter (\<lambda>e. ent_label e = l) (doc_ents doc))))
           (first_seen (map ent_label (doc_ents doc)))"
  unfolding get_document_insights_ok [of nlp document doc self, OF assms]
  by simp

text \<open>The theorem at the example document.\<close>

theorem document_stats_counts_witness:
  "example_nlp example_document = Inr example_annotation
   \<and> (\<exists>ins. get_document_insights example_nlp init example_document = Inr ins
     \<and> sentences (document_stats ins) = length (doc_sents example_annotation)
     \<and> total_words (document_stats ins) = length (doc_tokens example_annotation)
     \<and> entities (document_stats ins) =
         map (\<lambda>l. (l, map ent_text
                        (filter (\<lambda>e. ent_label e = l) (doc_ents example_annotation))))
           (first_seen (map ent_label (doc_ents example_annotation))))"
  using document_stats_counts [of example_nlp example_document example_annotation init]
    example_nlp_ok
  by blast

end
